theory Spec2Isabelle
  imports Complex_Main "HOL-Library.AList"
begin

section \<open>Sentiment dashboard backend: data model\<close>

text \<open>
  The backend has three source files: \<^verbatim>\<open>utils.py\<close> (\<^verbatim>\<open>validate_csv\<close>),
  \<^verbatim>\<open>models.py\<close> (class \<^verbatim>\<open>SentimentAnalyzer\<close>) and \<^verbatim>\<open>main.py\<close> (the request
  handler \<^verbatim>\<open>analyze_reviews\<close>). Python exceptions are values of type \<open>exn\<close>, and a
  function that may raise returns \<open>exn + 'a\<close> with \<open>Inl\<close> for the raised exception.
  Float scores are idealised as real numbers.
\<close>

datatype exn =
    HTTPException nat string  \<comment> \<open>status code and detail\<close>
  | ValueError
  | IndexError
  | KeyError
  | RuntimeError
  | ZeroDivisionError
  | External string  \<comment> \<open>anything raised inside pandas, the tokenizer or the model\<close>

text \<open>One entry of the list that \<^verbatim>\<open>analyze_batch\<close> returns: the dict with keys text, label, score.\<close>

record result =
  text_field :: string
  label :: string
  score :: real

text \<open>
  The analyzer object. The tokenizer, the pretrained model and the device placement are
  not part of the repository: together they are the field \<open>classifier\<close>, which maps the
  texts of one chunk to \<^verbatim>\<open>outputs.logits\<close> (one row of logits per text), or raises.
\<close>

record sentiment_analyzer =
  classifier :: "string list \<Rightarrow> exn + real list list"
  batch_size :: int

text \<open>
  A pandas data frame, column by column: the column names with their cells, and the length
  of the index. A cell is missing (NaN), a string or a number.
\<close>

datatype cell = NaN | Str string | Num real

record dataframe =
  columns :: "(string \<times> cell list) list"
  nrows :: nat

record upload_file =
  filename :: string
  content :: string

record summary =
  positive_count :: nat
  negative_count :: nat
  positive_avg_confidence :: real
  negative_avg_confidence :: real
  total_reviews :: nat

record response =
  summary_of :: summary
  reviews :: "(string \<times> cell) list list"

text \<open>
  The library functions that \<^verbatim>\<open>analyze_reviews\<close> calls and the repository does not
  define: decoding and parsing the upload (\<^verbatim>\<open>pd.read_csv(io.StringIO(content.decode('utf-8')))\<close>),
  \<^verbatim>\<open>str(e)\<close> of an exception, and \<^verbatim>\<open>astype(str)\<close> on a number.
\<close>

record externals =
  read_csv :: "string \<Rightarrow> exn + dataframe"
  exn_str :: "exn \<Rightarrow> string"
  num_str :: "real \<Rightarrow> string"

section \<open>utils.py\<close>

text \<open>\<^verbatim>\<open>df.empty\<close>: true when any axis of the frame has length 0.\<close>

definition df_empty :: "dataframe \<Rightarrow> bool" where
  "df_empty df = (columns df = [] \<or> nrows df = 0)"

definition column_names :: "dataframe \<Rightarrow> string list" where
  "column_names df = map fst (columns df)"

definition missing_column_msg :: string where
  "missing_column_msg = ''CSV file must contain a 'review' column''"

definition empty_dataset_msg :: string where
  "empty_dataset_msg = ''CSV file is empty''"

definition validate_csv :: "dataframe \<Rightarrow> string option" where
  "validate_csv df =
     (if ''review'' \<notin> set (column_names df) then Some missing_column_msg
      else if df_empty df then Some empty_dataset_msg
      else None)"

section \<open>models.py\<close>

text \<open>\<^verbatim>\<open>torch.nn.functional.softmax(logits, dim=1)\<close> on one row.\<close>

definition softmax :: "real list \<Rightarrow> real list" where
  "softmax xs = map (\<lambda>x. exp x / sum_list (map exp xs)) xs"

text \<open>
  \<^verbatim>\<open>row.argmax()\<close>: the index of the first occurrence of the maximum; torch raises on a
  row with no element.
\<close>

fun argmax_from :: "real list \<Rightarrow> nat \<Rightarrow> nat \<Rightarrow> real \<Rightarrow> nat" where
  "argmax_from [] j best m = best"
| "argmax_from (x # xs) j best m =
     (if m < x then argmax_from xs (Suc j) j x else argmax_from xs (Suc j) best m)"

definition argmax :: "real list \<Rightarrow> exn + nat" where
  "argmax xs = (case xs of [] \<Rightarrow> Inl RuntimeError | x # ys \<Rightarrow> Inr (argmax_from ys 1 0 x))"

text \<open>
  The body of the inner loop of \<^verbatim>\<open>analyze_batch\<close> for one text and its row of
  \<^verbatim>\<open>scores\<close>: the label is NEGATIVE for index 0 and POSITIVE otherwise, the score is
  the entry of the row at the chosen index.
\<close>

definition label_of :: "nat \<Rightarrow> string" where
  "label_of sentiment_id = (if sentiment_id = 0 then ''NEGATIVE'' else ''POSITIVE'')"

definition classify_row :: "string \<Rightarrow> real list \<Rightarrow> exn + result" where
  "classify_row t row =
     (case argmax row of
        Inl e \<Rightarrow> Inl e
      | Inr sentiment_id \<Rightarrow>
          Inr \<lparr>text_field = t, label = label_of sentiment_id, score = row ! sentiment_id\<rparr>)"

text \<open>
  The inner loop \<^verbatim>\<open>for j, text in enumerate(batch_texts)\<close>: the j-th text meets the
  j-th row \<^verbatim>\<open>scores[j]\<close>; indexing raises IndexError when the tensor has fewer rows
  than the chunk has texts, and further rows are never read.
\<close>

fun label_batch :: "string list \<Rightarrow> real list list \<Rightarrow> exn + result list" where
  "label_batch [] scores = Inr []"
| "label_batch (t # ts) [] = Inl IndexError"
| "label_batch (t # ts) (row # scores) =
     (case classify_row t row of
        Inl e \<Rightarrow> Inl e
      | Inr r \<Rightarrow> (case label_batch ts scores of Inl e \<Rightarrow> Inl e | Inr rs \<Rightarrow> Inr (r # rs)))"

text \<open>
  One pass of the outer loop: slice the chunk \<^verbatim>\<open>texts[i:i+batch_size]\<close>, run the
  classifier on it, normalise each row and label the chunk.
\<close>

definition batch_texts_at :: "nat \<Rightarrow> string list \<Rightarrow> nat \<Rightarrow> string list" where
  "batch_texts_at bs texts i = take bs (drop i texts)"

definition run_chunk :: "(string list \<Rightarrow> exn + real list list) \<Rightarrow> string list \<Rightarrow> exn + result list" where
  "run_chunk clf batch_texts =
     (case clf batch_texts of
        Inl e \<Rightarrow> Inl e
      | Inr logits \<Rightarrow> label_batch batch_texts (map softmax logits))"

text \<open>
  The outer loop \<^verbatim>\<open>for i in range(0, len(texts), self.batch_size)\<close> for a positive
  step \<open>bs\<close>, from index \<open>i\<close> on, with the list \<open>results\<close> built so far. An exception
  leaves the loop at once and the list built so far is lost. The \<^verbatim>\<open>asyncio.sleep\<close>
  between chunks changes no value and is left out. The test \<open>0 < bs\<close> is there for
  termination only: \<open>analyze_batch\<close> below calls the loop with a positive step.
\<close>

function batch_loop ::
  "(string list \<Rightarrow> exn + real list list) \<Rightarrow> nat \<Rightarrow> string list \<Rightarrow> nat \<Rightarrow> result list
     \<Rightarrow> exn + result list" where
  "batch_loop clf bs texts i results =
     (if 0 < bs \<and> i < length texts then
        (case run_chunk clf (batch_texts_at bs texts i) of
           Inl e \<Rightarrow> Inl e
         | Inr rs \<Rightarrow> batch_loop clf bs texts (i + bs) (results @ rs))
      else Inr results)"
  by pat_completeness auto
termination
  by (relation "measure (\<lambda>(clf, bs, texts, i, results). length texts - i)") auto

text \<open>
  \<^verbatim>\<open>analyze_batch\<close>: \<^verbatim>\<open>range\<close> raises ValueError for a step of 0 and is empty for a
  negative step.
\<close>

definition analyze_batch :: "sentiment_analyzer \<Rightarrow> string list \<Rightarrow> exn + result list" where
  "analyze_batch self texts =
     (if batch_size self = 0 then Inl ValueError
      else if batch_size self < 0 then Inr []
      else batch_loop (classifier self) (nat (batch_size self)) texts 0 [])"

text \<open>The chunks that the loop slices, in the order in which it reaches them.\<close>

function batches :: "nat \<Rightarrow> string list \<Rightarrow> nat \<Rightarrow> string list list" where
  "batches bs texts i =
     (if 0 < bs \<and> i < length texts
      then batch_texts_at bs texts i # batches bs texts (i + bs)
      else [])"
  by pat_completeness auto
termination
  by (relation "measure (\<lambda>(bs, texts, i). length texts - i)") auto

text \<open>
  The loop seen from a list of chunks: each chunk is processed in turn and its results are
  appended; the first exception ends the run.
\<close>

fun run_batches ::
  "(string list \<Rightarrow> exn + real list list) \<Rightarrow> string list list \<Rightarrow> result list \<Rightarrow> exn + result list" where
  "run_batches clf [] results = Inr results"
| "run_batches clf (c # cs) results =
     (case run_chunk clf c of Inl e \<Rightarrow> Inl e | Inr rs \<Rightarrow> run_batches clf cs (results @ rs))"

text \<open>
  \<^verbatim>\<open>analyze_text\<close>, the single-text sibling: the classifier sees a chunk of one text,
  \<^verbatim>\<open>scores.argmax()\<close> is taken over the whole (one-row) tensor and the score is read
  from row 0.
\<close>

definition analyze_text :: "sentiment_analyzer \<Rightarrow> string \<Rightarrow> exn + result" where
  "analyze_text self t =
     (case classifier self [t] of
        Inl e \<Rightarrow> Inl e
      | Inr logits \<Rightarrow>
          (let scores = map softmax logits in
           case argmax (concat scores) of
             Inl e \<Rightarrow> Inl e
           | Inr sentiment_id \<Rightarrow>
               (case scores of
                  [] \<Rightarrow> Inl IndexError
                | row # _ \<Rightarrow>
                    if sentiment_id < length row
                    then Inr \<lparr>text_field = t, label = label_of sentiment_id, score = row ! sentiment_id\<rparr>
                    else Inl IndexError)))"

section \<open>main.py\<close>

text \<open>\<^verbatim>\<open>name.endswith(suffix)\<close> on strings.\<close>

definition endswith :: "string \<Rightarrow> string \<Rightarrow> bool" where
  "endswith s suf = (length suf \<le> length s \<and> drop (length s - length suf) s = suf)"

text \<open>Python's \<^verbatim>\<open>/\<close> on numbers raises ZeroDivisionError for a zero divisor.\<close>

definition py_truediv :: "real \<Rightarrow> nat \<Rightarrow> exn + real" where
  "py_truediv a b = (if b = 0 then Inl ZeroDivisionError else Inr (a / real b))"

text \<open>\<^verbatim>\<open>sum(1 for r in results if r['label'] == lbl)\<close>.\<close>

definition count_label :: "string \<Rightarrow> result list \<Rightarrow> nat" where
  "count_label lbl results = sum_list (map (\<lambda>r. 1) (filter (\<lambda>r. label r = lbl) results))"

text \<open>\<^verbatim>\<open>sum(r['score'] for r in results if r['label'] == lbl)\<close>.\<close>

definition score_sum :: "string \<Rightarrow> result list \<Rightarrow> real" where
  "score_sum lbl results = sum_list (map score (filter (\<lambda>r. label r = lbl) results))"

text \<open>
  The average of one label: it starts as 0 and is assigned the quotient only under the
  guard \<^verbatim>\<open>if count > 0\<close>.
\<close>

definition avg_score :: "string \<Rightarrow> result list \<Rightarrow> exn + real" where
  "avg_score lbl results =
     (if count_label lbl results > 0
      then py_truediv (score_sum lbl results) (count_label lbl results)
      else Inr 0)"

text \<open>The summary statistics of \<^verbatim>\<open>analyze_reviews\<close> and the summary dict of the response.\<close>

definition summarize :: "result list \<Rightarrow> exn + summary" where
  "summarize results =
     (case avg_score ''POSITIVE'' results of
        Inl e \<Rightarrow> Inl e
      | Inr positive_avg_score \<Rightarrow>
          (case avg_score ''NEGATIVE'' results of
             Inl e \<Rightarrow> Inl e
           | Inr negative_avg_score \<Rightarrow>
               Inr \<lparr>positive_count = count_label ''POSITIVE'' results,
                    negative_count = count_label ''NEGATIVE'' results,
                    positive_avg_confidence = positive_avg_score,
                    negative_avg_confidence = negative_avg_score,
                    total_reviews = length results\<rparr>))"

text \<open>\<^verbatim>\<open>df[name]\<close>: KeyError for a column the frame does not have.\<close>

definition get_column :: "dataframe \<Rightarrow> string \<Rightarrow> exn + cell list" where
  "get_column df name = (case map_of (columns df) name of None \<Rightarrow> Inl KeyError | Some c \<Rightarrow> Inr c)"

text \<open>
  \<^verbatim>\<open>df[name] = values\<close>: ValueError when the number of values is not the length of the
  index; an existing column is replaced in place, a new one is added last.
\<close>

definition set_column :: "dataframe \<Rightarrow> string \<Rightarrow> cell list \<Rightarrow> exn + dataframe" where
  "set_column df name vals =
     (if length vals \<noteq> nrows df then Inl ValueError
      else Inr (df\<lparr>columns := AList.update name vals (columns df)\<rparr>))"

text \<open>\<^verbatim>\<open>.fillna('').astype(str)\<close> on one cell.\<close>

fun clean_cell :: "externals \<Rightarrow> cell \<Rightarrow> string" where
  "clean_cell ext NaN = []"
| "clean_cell ext (Str s) = s"
| "clean_cell ext (Num x) = num_str ext x"

text \<open>
  \<^verbatim>\<open>df.to_dict(orient='records')\<close>: one dict per row of the index. Every column of a
  pandas frame has one cell per row; the test on the length only makes the function total.
\<close>

definition to_dict_records :: "dataframe \<Rightarrow> (string \<times> cell) list list" where
  "to_dict_records df =
     map (\<lambda>i. map (\<lambda>(name, col). (name, if i < length col then col ! i else NaN)) (columns df))
       [0..<nrows df]"

text \<open>
  The body of the \<^verbatim>\<open>try\<close> block of \<^verbatim>\<open>analyze_reviews\<close>. The test
  \<^verbatim>\<open>if validation_error\<close> is Python truthiness: a non-empty message. The texts handed
  to \<^verbatim>\<open>analyze_batch\<close> are the cleaned cells of the column \<open>review\<close>, which is what
  \<^verbatim>\<open>df['review'].tolist()\<close> reads back after the assignment.
\<close>

definition analyze_reviews_body ::
  "externals \<Rightarrow> sentiment_analyzer \<Rightarrow> string \<Rightarrow> exn + response" where
  "analyze_reviews_body ext analyzer bytes =
     (case read_csv ext bytes of
        Inl e \<Rightarrow> Inl e
      | Inr df \<Rightarrow>
     (case (case validate_csv df of None \<Rightarrow> None | Some msg \<Rightarrow> if msg = [] then None else Some msg) of
        Some validation_error \<Rightarrow> Inl (HTTPException 400 validation_error)
      | None \<Rightarrow>
     (case get_column df ''review'' of
        Inl e \<Rightarrow> Inl e
      | Inr review \<Rightarrow>
     (case set_column df ''review'' (map (\<lambda>c. Str (clean_cell ext c)) review) of
        Inl e \<Rightarrow> Inl e
      | Inr df1 \<Rightarrow>
     (case analyze_batch analyzer (map (clean_cell ext) review) of
        Inl e \<Rightarrow> Inl e
      | Inr results \<Rightarrow>
     (case summarize results of
        Inl e \<Rightarrow> Inl e
      | Inr stats \<Rightarrow>
     (case set_column df1 ''sentiment'' (map (\<lambda>r. Str (label r)) results) of
        Inl e \<Rightarrow> Inl e
      | Inr df2 \<Rightarrow>
     (case set_column df2 ''confidence'' (map (\<lambda>r. Num (score r)) results) of
        Inl e \<Rightarrow> Inl e
      | Inr df3 \<Rightarrow> Inr \<lparr>summary_of = stats, reviews = to_dict_records df3\<rparr>))))))))"

text \<open>
  \<^verbatim>\<open>analyze_reviews\<close>: the extension check stands before the \<^verbatim>\<open>try\<close>; the clause
  \<^verbatim>\<open>except Exception as e\<close> catches every exception of the body, the HTTPException of
  the validation included (it is a subclass of Exception), and raises status 500.
\<close>

definition analyze_reviews ::
  "externals \<Rightarrow> sentiment_analyzer \<Rightarrow> upload_file \<Rightarrow> exn + response" where
  "analyze_reviews ext analyzer file =
     (if \<not> endswith (filename file) ''.csv''
      then Inl (HTTPException 400 ''Only CSV files are accepted'')
      else (case analyze_reviews_body ext analyzer (content file) of
              Inl e \<Rightarrow> Inl (HTTPException 500 (''Error processing CSV: '' @ exn_str ext e))
            | Inr response \<Rightarrow> Inr response))"

section \<open>A relational reading of the batch loop\<close>

text \<open>
  To speak about two invocations, the classifier is a relation between a chunk and an
  outcome here (a call may a priori answer differently each time), and a run of the
  loop of \<^verbatim>\<open>analyze_batch\<close> is derived rule by rule.
\<close>

inductive batch_run ::
  "(string list \<Rightarrow> exn + real list list \<Rightarrow> bool) \<Rightarrow> nat \<Rightarrow> string list \<Rightarrow> nat \<Rightarrow> result list
     \<Rightarrow> exn + result list \<Rightarrow> bool"
  for call :: "string list \<Rightarrow> exn + real list list \<Rightarrow> bool" and bs :: nat and texts :: "string list"
  where
    finished: "\<not> i < length texts \<Longrightarrow> batch_run call bs texts i results (Inr results)"
  | model_raises:
      "i < length texts \<Longrightarrow> call (batch_texts_at bs texts i) (Inl e)
         \<Longrightarrow> batch_run call bs texts i results (Inl e)"
  | labelling_raises:
      "i < length texts \<Longrightarrow> call (batch_texts_at bs texts i) (Inr logits)
         \<Longrightarrow> label_batch (batch_texts_at bs texts i) (map softmax logits) = Inl e
         \<Longrightarrow> batch_run call bs texts i results (Inl e)"
  | next_batch:
      "i < length texts \<Longrightarrow> call (batch_texts_at bs texts i) (Inr logits)
         \<Longrightarrow> label_batch (batch_texts_at bs texts i) (map softmax logits) = Inr rs
         \<Longrightarrow> batch_run call bs texts (i + bs) (results @ rs) out
         \<Longrightarrow> batch_run call bs texts i results out"

definition analyze_batch_run ::
  "(string list \<Rightarrow> exn + real list list \<Rightarrow> bool) \<Rightarrow> int \<Rightarrow> string list \<Rightarrow> exn + result list \<Rightarrow> bool" where
  "analyze_batch_run call batch_sz texts out =
     (if batch_sz = 0 then out = Inl ValueError
      else if batch_sz < 0 then out = Inr []
      else batch_run call (nat batch_sz) texts 0 [] out)"

text \<open>A classifier that answers every chunk in one way only.\<close>

definition deterministic :: "(string list \<Rightarrow> exn + real list list \<Rightarrow> bool) \<Rightarrow> bool" where
  "deterministic call = (\<forall>chunk out1 out2. call chunk out1 \<longrightarrow> call chunk out2 \<longrightarrow> out1 = out2)"

section \<open>Assumptions on the classifier\<close>

text \<open>
  The classifier answers every non-empty chunk with one non-empty row of logits per text
  (the shape \<^verbatim>\<open>[len(chunk), num_labels]\<close> of the logits of a sequence classifier).
\<close>

definition well_shaped :: "(string list \<Rightarrow> exn + real list list) \<Rightarrow> bool" where
  "well_shaped clf =
     (\<forall>chunk. chunk \<noteq> [] \<longrightarrow>
        (\<exists>logits. clf chunk = Inr logits \<and> length logits = length chunk \<and> (\<forall>row \<in> set logits. row \<noteq> [])))"

text \<open>The classifier has two classes: every row it returns has two logits.\<close>

definition two_class :: "(string list \<Rightarrow> exn + real list list) \<Rightarrow> bool" where
  "two_class clf = (\<forall>chunk logits. clf chunk = Inr logits \<longrightarrow> (\<forall>row \<in> set logits. length row = 2))"

text \<open>
  The classifier scores each text on its own: the row of a text does not depend on the
  other texts of its chunk.
\<close>

definition itemwise :: "(string list \<Rightarrow> exn + real list list) \<Rightarrow> (string \<Rightarrow> real list) \<Rightarrow> bool" where
  "itemwise clf f = (\<forall>chunk. chunk \<noteq> [] \<longrightarrow> clf chunk = Inr (map f chunk))"

section \<open>Reading one item off the classifier\<close>

text \<open>
  The classification of the text at index \<open>k\<close> of the input: the classifier is run on
  the chunk that holds index \<open>k\<close> (it starts at \<open>(k div bs) * bs\<close>), and row \<open>k mod bs\<close>
  of its scores is labelled together with the text.
\<close>

definition classification_at ::
  "(string list \<Rightarrow> exn + real list list) \<Rightarrow> nat \<Rightarrow> string list \<Rightarrow> nat \<Rightarrow> exn + result" where
  "classification_at clf bs texts k =
     (case clf (batch_texts_at bs texts ((k div bs) * bs)) of
        Inl e \<Rightarrow> Inl e
      | Inr logits \<Rightarrow>
          if k mod bs < length logits
          then classify_row (texts ! k) (softmax (logits ! (k mod bs)))
          else Inl IndexError)"

section \<open>Concrete inputs\<close>

text \<open>
  A classifier for examples: the logits of a text are 0 for class 0 and the length of
  the text minus one for class 1, so the empty text is negative and a text of two or more
  characters is positive.
\<close>

definition demo_classifier :: "string list \<Rightarrow> exn + real list list" where
  "demo_classifier chunk = Inr (map (\<lambda>t. [0, real (length t) - 1]) chunk)"

definition demo_analyzer :: sentiment_analyzer where
  "demo_analyzer = \<lparr>classifier = demo_classifier, batch_size = 2\<rparr>"

text \<open>A classifier that raises on every chunk that holds the text \<open>boom\<close>.\<close>

definition failing_classifier :: "string list \<Rightarrow> exn + real list list" where
  "failing_classifier chunk =
     (if ''boom'' \<in> set chunk then Inl (External ''model error'') else demo_classifier chunk)"

definition failing_analyzer :: sentiment_analyzer where
  "failing_analyzer = \<lparr>classifier = failing_classifier, batch_size = 2\<rparr>"

text \<open>A classifier whose logits depend on how many texts share the chunk.\<close>

definition crowd_classifier :: "string list \<Rightarrow> exn + real list list" where
  "crowd_classifier chunk = Inr (map (\<lambda>t. [1, real (length chunk)]) chunk)"

text \<open>A result list with positive items only.\<close>

definition positive_results :: "result list" where
  "positive_results =
     [\<lparr>text_field = ''great'', label = ''POSITIVE'', score = 9 / 10\<rparr>,
      \<lparr>text_field = ''fine'', label = ''POSITIVE'', score = 7 / 10\<rparr>]"

text \<open>What \<open>demo_analyzer\<close> returns for the texts good, the empty text and bad.\<close>

definition demo_results_list :: "result list" where
  "demo_results_list =
     [\<lparr>text_field = ''good'', label = ''POSITIVE'', score = exp 3 / (exp 0 + exp 3)\<rparr>,
      \<lparr>text_field = '''', label = ''NEGATIVE'', score = exp 0 / (exp 0 + exp (-1))\<rparr>,
      \<lparr>text_field = ''bad'', label = ''POSITIVE'', score = exp 2 / (exp 0 + exp 2)\<rparr>]"

text \<open>Data frames: one without the column review, one with the column and no row, one with two rows.\<close>

definition no_review_frame :: dataframe where
  "no_review_frame = \<lparr>columns = [(''text'', [Str ''hello'']), (''stars'', [Num 5])], nrows = 1\<rparr>"

definition header_only_frame :: dataframe where
  "header_only_frame = \<lparr>columns = [(''review'', [])], nrows = 0\<rparr>"

definition review_frame :: dataframe where
  "review_frame = \<lparr>columns = [(''review'', [Str ''great product'', NaN])], nrows = 2\<rparr>"

text \<open>An upload whose CSV text has the columns text and stars, and what the parser makes of it.\<close>

definition no_review_csv :: string where
  "no_review_csv = ''text,stars'' @ [CHR 0x0A] @ ''hello,5'' @ [CHR 0x0A]"

definition demo_read_csv :: "string \<Rightarrow> exn + dataframe" where
  "demo_read_csv bytes =
     (if bytes = no_review_csv then Inr no_review_frame else Inl (External ''parser error''))"

text \<open>
  \<^verbatim>\<open>str(e)\<close> as Starlette prints an HTTPException: the status code, a colon and the
  detail (only the codes 400 and 500 occur here).
\<close>

definition demo_exn_str :: "exn \<Rightarrow> string" where
  "demo_exn_str e =
     (case e of
        HTTPException status detail \<Rightarrow> (if status = 400 then ''400: '' else ''500: '') @ detail
      | External msg \<Rightarrow> msg
      | _ \<Rightarrow> [])"

definition demo_externals :: externals where
  "demo_externals = \<lparr>read_csv = demo_read_csv, exn_str = demo_exn_str, num_str = (\<lambda>x. ''0'')\<rparr>"

definition no_review_upload :: upload_file where
  "no_review_upload = \<lparr>filename = ''reviews.csv'', content = no_review_csv\<rparr>"

section \<open>Helper lemmas\<close>

declare batch_loop.simps [simp del] batches.simps [simp del]

subsection \<open>Softmax and argmax\<close>

lemma label_of_cases: "label_of n = ''NEGATIVE'' \<or> label_of n = ''POSITIVE''"
  by (simp add: label_of_def)

lemma length_softmax: "length (softmax xs) = length xs"
  by (simp add: softmax_def)

lemma sum_exp_nonneg: "0 \<le> sum_list (map exp (xs :: real list))"
  by (induction xs) simp_all

lemma sum_exp_pos: "xs \<noteq> [] \<Longrightarrow> 0 < sum_list (map exp (xs :: real list))"
proof (cases xs)
  case (Cons x ys)
  have "0 < exp x + sum_list (map exp ys)"
    using sum_exp_nonneg [of ys] exp_gt_zero [of x] by linarith
  then show ?thesis by (simp add: Cons)
qed simp

lemma sum_list_map_divide: "sum_list (map (\<lambda>x. f x / (c :: real)) xs) = sum_list (map f xs) / c"
  by (induction xs) (simp_all add: add_divide_distrib)

lemma softmax_nth: "i < length xs \<Longrightarrow> softmax xs ! i = exp (xs ! i) / sum_list (map exp xs)"
  by (simp add: softmax_def)

lemma softmax_pair:
  "softmax [a, b] = [exp a / (exp a + exp b), exp b / (exp a + exp b)]"
  by (simp add: softmax_def)

lemma softmax_eq_Nil: "softmax xs = [] \<longleftrightarrow> xs = []"
  by (simp add: softmax_def)

lemma sum_list_softmax: "xs \<noteq> [] \<Longrightarrow> sum_list (softmax xs) = 1"
proof -
  assume ne: "xs \<noteq> []"
  let ?Z = "sum_list (map exp xs)"
  have "sum_list (softmax xs) = sum_list (map exp xs) / ?Z"
    unfolding softmax_def by (rule sum_list_map_divide)
  with sum_exp_pos [OF ne] show ?thesis by simp
qed

lemma argmax_pair: "argmax [a, b] = Inr (if a < b then 1 else 0)"
  by (simp add: argmax_def)

lemma argmax_nonempty: "xs \<noteq> [] \<Longrightarrow> \<exists>k. argmax xs = Inr k"
  by (cases xs) (simp_all add: argmax_def)

lemma argmax_from_spec:
  assumes "length pre = j" "best < j" "pre ! best = m" "\<forall>x\<in>set pre. x \<le> m" "\<forall>i<best. pre ! i < m"
  shows "argmax_from xs j best m < j + length xs \<and>
         (\<forall>x\<in>set (pre @ xs). x \<le> (pre @ xs) ! argmax_from xs j best m) \<and>
         (\<forall>i<argmax_from xs j best m. (pre @ xs) ! i < (pre @ xs) ! argmax_from xs j best m)"
  using assms
proof (induction xs arbitrary: pre j best m)
  case Nil
  then show ?case by simp
next
  case (Cons x xs)
  show ?case
  proof (cases "m < x")
    case True
    have "argmax_from xs (Suc j) j x < Suc j + length xs \<and>
         (\<forall>y\<in>set ((pre @ [x]) @ xs). y \<le> ((pre @ [x]) @ xs) ! argmax_from xs (Suc j) j x) \<and>
         (\<forall>i<argmax_from xs (Suc j) j x. ((pre @ [x]) @ xs) ! i < ((pre @ [x]) @ xs) ! argmax_from xs (Suc j) j x)"
    proof (rule Cons.IH)
      show "length (pre @ [x]) = Suc j" using Cons.prems by simp
      show "j < Suc j" by simp
      show "(pre @ [x]) ! j = x" using Cons.prems by (simp add: nth_append)
      show "\<forall>y\<in>set (pre @ [x]). y \<le> x" using Cons.prems True by fastforce
      show "\<forall>i<j. (pre @ [x]) ! i < x"
      proof (intro allI impI)
        fix i assume "i < j"
        then have "pre ! i \<in> set pre" using Cons.prems by simp
        then have "pre ! i \<le> m" using Cons.prems by blast
        with True have "pre ! i < x" by linarith
        then show "(pre @ [x]) ! i < x" using \<open>i < j\<close> Cons.prems(1) by (simp add: nth_append)
      qed
    qed
    then show ?thesis using True by simp
  next
    case False
    have "argmax_from xs (Suc j) best m < Suc j + length xs \<and>
         (\<forall>y\<in>set ((pre @ [x]) @ xs). y \<le> ((pre @ [x]) @ xs) ! argmax_from xs (Suc j) best m) \<and>
         (\<forall>i<argmax_from xs (Suc j) best m. ((pre @ [x]) @ xs) ! i < ((pre @ [x]) @ xs) ! argmax_from xs (Suc j) best m)"
    proof (rule Cons.IH)
      show "length (pre @ [x]) = Suc j" using Cons.prems by simp
      show "best < Suc j" using Cons.prems by simp
      show "(pre @ [x]) ! best = m" using Cons.prems by (simp add: nth_append)
      show "\<forall>y\<in>set (pre @ [x]). y \<le> m" using Cons.prems False by auto
      show "\<forall>i<best. (pre @ [x]) ! i < m" using Cons.prems by (simp add: nth_append)
    qed
    then show ?thesis using False by simp
  qed
qed

lemma argmax_spec:
  assumes "xs \<noteq> []"
  shows "\<exists>k. argmax xs = Inr k \<and> k < length xs \<and> (\<forall>x\<in>set xs. x \<le> xs ! k) \<and> (\<forall>i<k. xs ! i < xs ! k)"
proof -
  from assms obtain x ys where xs: "xs = x # ys" by (cases xs) auto
  have "argmax_from ys 1 0 x < 1 + length ys \<and>
         (\<forall>y\<in>set ([x] @ ys). y \<le> ([x] @ ys) ! argmax_from ys 1 0 x) \<and>
         (\<forall>i<argmax_from ys 1 0 x. ([x] @ ys) ! i < ([x] @ ys) ! argmax_from ys 1 0 x)"
    by (rule argmax_from_spec) simp_all
  then show ?thesis by (simp add: xs argmax_def)
qed

subsection \<open>Labelling one chunk\<close>

lemma label_batch_Inr:
  "label_batch ts ps = Inr rs \<Longrightarrow>
     length rs = length ts \<and> length ts \<le> length ps \<and>
     (\<forall>j<length ts. classify_row (ts ! j) (ps ! j) = Inr (rs ! j))"
proof (induction ts ps arbitrary: rs rule: label_batch.induct)
  case (1 scores)
  then show ?case by simp
next
  case (2 t ts)
  then show ?case by simp
next
  case (3 t ts row scores)
  from "3.prems" obtain r rs' where r: "classify_row t row = Inr r"
    and rs': "label_batch ts scores = Inr rs'" and rs: "rs = r # rs'"
    by (auto split: sum.splits)
  from "3.IH" [OF r rs'] have ih: "length rs' = length ts" "length ts \<le> length scores"
    "\<forall>j<length ts. classify_row (ts ! j) (scores ! j) = Inr (rs' ! j)" by simp_all
  show ?case
  proof (intro conjI allI impI)
    fix j assume "j < length (t # ts)"
    then show "classify_row ((t # ts) ! j) ((row # scores) ! j) = Inr (rs ! j)"
      using r ih(3) rs by (cases j) simp_all
  qed (simp_all add: rs ih)
qed

lemma classify_row_nonempty: "row \<noteq> [] \<Longrightarrow> \<exists>r. classify_row t row = Inr r"
  by (cases row) (simp_all add: classify_row_def argmax_def)

lemma label_batch_total:
  "length ts \<le> length ps \<Longrightarrow> \<forall>row\<in>set ps. row \<noteq> [] \<Longrightarrow> \<exists>rs. label_batch ts ps = Inr rs"
proof (induction ts ps rule: label_batch.induct)
  case (3 t ts row scores)
  from "3.prems" obtain r where r: "classify_row t row = Inr r"
    using classify_row_nonempty [of row t] by auto
  from "3.IH" [OF r] "3.prems" obtain rs where "label_batch ts scores = Inr rs" by auto
  with r show ?case by simp
qed simp_all

lemma label_batch_append:
  "length xs = length ps \<Longrightarrow>
   label_batch (xs @ ys) (ps @ qs) =
     (case label_batch xs ps of
        Inl e \<Rightarrow> Inl e
      | Inr rs1 \<Rightarrow> (case label_batch ys qs of Inl e \<Rightarrow> Inl e | Inr rs2 \<Rightarrow> Inr (rs1 @ rs2)))"
proof (induction xs ps rule: list_induct2)
  case Nil
  then show ?case by (simp split: sum.splits)
next
  case (Cons x xs p ps)
  then show ?case by (simp split: sum.splits)
qed

subsection \<open>The batch loop, item by item\<close>

lemma batch_loop_done: "\<not> (0 < bs \<and> i < length texts) \<Longrightarrow> batch_loop clf bs texts i acc = Inr acc"
  by (subst batch_loop.simps) auto

lemma batch_loop_step:
  "0 < bs \<Longrightarrow> i < length texts \<Longrightarrow>
   batch_loop clf bs texts i acc =
     (case run_chunk clf (batch_texts_at bs texts i) of
        Inl e \<Rightarrow> Inl e
      | Inr rs \<Rightarrow> batch_loop clf bs texts (i + bs) (acc @ rs))"
  by (subst batch_loop.simps) simp

lemma batches_done: "\<not> (0 < bs \<and> i < length texts) \<Longrightarrow> batches bs texts i = []"
  by (subst batches.simps) auto

lemma batches_step:
  "0 < bs \<Longrightarrow> i < length texts \<Longrightarrow>
   batches bs texts i = batch_texts_at bs texts i # batches bs texts (i + bs)"
  by (subst batches.simps) simp

lemma length_batch_texts_at: "length (batch_texts_at bs texts i) = min bs (length texts - i)"
  by (simp add: batch_texts_at_def)

lemma batch_texts_at_nth:
  "j < bs \<Longrightarrow> i + j < length texts \<Longrightarrow> batch_texts_at bs texts i ! j = texts ! (i + j)"
  by (simp add: batch_texts_at_def)

lemma run_chunk_Inr:
  assumes "run_chunk clf c = Inr rs"
  shows "\<exists>logits. clf c = Inr logits \<and> length rs = length c \<and> length c \<le> length logits \<and>
           (\<forall>j<length c. classify_row (c ! j) (softmax (logits ! j)) = Inr (rs ! j))"
proof -
  from assms obtain logits where l: "clf c = Inr logits"
    and lb: "label_batch c (map softmax logits) = Inr rs"
    by (auto simp: run_chunk_def split: sum.splits)
  note lbi = label_batch_Inr [OF lb]
  from lbi have a: "length rs = length c" "length c \<le> length (map softmax logits)"
    by blast+
  from lbi have b: "\<And>j. j < length c \<Longrightarrow> classify_row (c ! j) (map softmax logits ! j) = Inr (rs ! j)"
    by blast
  have "\<forall>j<length c. classify_row (c ! j) (softmax (logits ! j)) = Inr (rs ! j)"
  proof (intro allI impI)
    fix j assume j: "j < length c"
    with a have "j < length logits" by simp
    then have "map softmax logits ! j = softmax (logits ! j)" by simp
    with b [OF j] show "classify_row (c ! j) (softmax (logits ! j)) = Inr (rs ! j)" by simp
  qed
  with l a show ?thesis by simp
qed

lemma chunk_index:
  fixes bs i k :: nat
  assumes "0 < bs" "bs dvd i" "i \<le> k" "k < i + bs"
  shows "(k div bs) * bs = i" "k mod bs = k - i"
proof -
  from assms(2) obtain q where q: "i = bs * q" by (auto simp: dvd_def)
  have k: "k = bs * q + (k - i)" using assms(3) q by linarith
  have lt: "k - i < bs" using assms by linarith
  have "k div bs = q"
    by (subst k) (use lt assms(1) in simp)
  then show "(k div bs) * bs = i" using q by simp
  have "k mod bs = (k - i) mod bs"
    by (subst k) simp
  then show "k mod bs = k - i" using lt by simp
qed

lemma batch_loop_Inr:
  "batch_loop clf bs texts i acc = Inr rs \<Longrightarrow> 0 < bs \<Longrightarrow> bs dvd i \<Longrightarrow>
   \<exists>tail. rs = acc @ tail \<and> length tail = length texts - i \<and>
     (\<forall>k. i \<le> k \<and> k < length texts \<longrightarrow> classification_at clf bs texts k = Inr (tail ! (k - i)))"
proof (induction clf bs texts i acc rule: batch_loop.induct)
  case (1 clf bs texts i acc)
  show ?case
  proof (cases "i < length texts")
    case False
    with "1.prems" have "rs = acc" by (simp add: batch_loop_done)
    with False show ?thesis by auto
  next
    case True
    let ?c = "batch_texts_at bs texts i"
    from "1.prems" True obtain rs0 where rc: "run_chunk clf ?c = Inr rs0"
      and rest: "batch_loop clf bs texts (i + bs) (acc @ rs0) = Inr rs"
      by (auto simp: batch_loop_step split: sum.splits)
    from run_chunk_Inr [OF rc] obtain logits where l: "clf ?c = Inr logits"
      and len0: "length rs0 = length ?c" and lenl: "length ?c \<le> length logits"
      and items: "\<forall>j<length ?c. classify_row (?c ! j) (softmax (logits ! j)) = Inr (rs0 ! j)"
      by blast
    have dvd': "bs dvd i + bs" using "1.prems" by simp
    from "1.IH" [OF _ rc rest \<open>0 < bs\<close> dvd'] True "1.prems"(2)
    obtain tail' where t1: "rs = (acc @ rs0) @ tail'"
      and t2: "length tail' = length texts - (i + bs)"
      and t3: "\<forall>k. i + bs \<le> k \<and> k < length texts \<longrightarrow>
                 classification_at clf bs texts k = Inr (tail' ! (k - (i + bs)))"
      by blast
    have lenc: "length ?c = min bs (length texts - i)" by (rule length_batch_texts_at)
    show ?thesis
    proof (intro exI conjI allI impI)
      show "rs = acc @ (rs0 @ tail')" using t1 by simp
      show "length (rs0 @ tail') = length texts - i" using t2 len0 lenc True by auto
      fix k assume k: "i \<le> k \<and> k < length texts"
      show "classification_at clf bs texts k = Inr ((rs0 @ tail') ! (k - i))"
      proof (cases "k < i + bs")
        case True
        from chunk_index [OF "1.prems"(2,3) _ True] k
        have ci: "(k div bs) * bs = i" "k mod bs = k - i" by simp_all
        have kc: "k - i < length ?c" using k True lenc by auto
        have "k - i < bs" "i + (k - i) = k" using k True by auto
        then have "?c ! (k - i) = texts ! k"
          using batch_texts_at_nth [of "k - i" bs i texts] k by simp
        with items kc have "classify_row (texts ! k) (softmax (logits ! (k - i))) = Inr (rs0 ! (k - i))"
          by auto
        moreover have "k - i < length logits" using kc lenl by simp
        ultimately show ?thesis
          using l kc len0 by (simp add: classification_at_def ci nth_append)
      next
        case False
        then have ge: "i + bs \<le> k" by simp
        with k have "length ?c = bs" using lenc by auto
        with len0 have "length rs0 = bs" by simp
        then have "(rs0 @ tail') ! (k - i) = tail' ! (k - (i + bs))"
          using ge by (simp add: nth_append)
        with t3 ge k show ?thesis by simp
      qed
    qed
  qed
qed

lemma batch_loop_total:
  "well_shaped clf \<Longrightarrow> \<exists>rs. batch_loop clf bs texts i acc = Inr rs"
proof (induction clf bs texts i acc rule: batch_loop.induct)
  case (1 clf bs texts i acc)
  show ?case
  proof (cases "0 < bs \<and> i < length texts")
    case False
    then show ?thesis by (simp add: batch_loop_done)
  next
    case True
    let ?c = "batch_texts_at bs texts i"
    have "?c \<noteq> []" using True by (simp add: batch_texts_at_def)
    with "1.prems" obtain logits where l: "clf ?c = Inr logits"
      and len: "length logits = length ?c" and ne: "\<forall>row\<in>set logits. row \<noteq> []"
      unfolding well_shaped_def by blast
    have "\<exists>rs. label_batch ?c (map softmax logits) = Inr rs"
      by (rule label_batch_total) (use len ne in \<open>auto simp: softmax_eq_Nil\<close>)
    then obtain rs0 where rc: "run_chunk clf ?c = Inr rs0" using l by (auto simp: run_chunk_def)
    from "1.IH" [OF True rc "1.prems"] obtain rs
      where "batch_loop clf bs texts (i + bs) (acc @ rs0) = Inr rs" by blast
    with True rc show ?thesis by (simp add: batch_loop_step)
  qed
qed

lemma classify_row_text: "classify_row t row = Inr r \<Longrightarrow> text_field r = t"
  by (auto simp: classify_row_def split: sum.splits)

lemma classification_at_text:
  "classification_at clf bs texts k = Inr r \<Longrightarrow> text_field r = texts ! k"
  by (auto simp: classification_at_def split: sum.splits if_splits dest: classify_row_text)

lemma well_shaped_demo: "well_shaped demo_classifier"
  by (simp add: well_shaped_def demo_classifier_def)

subsection \<open>The chunks of the loop\<close>

lemma batch_loop_run_batches:
  "batch_loop clf bs texts i acc = run_batches clf (batches bs texts i) acc"
proof (induction clf bs texts i acc rule: batch_loop.induct)
  case (1 clf bs texts i acc)
  show ?case
  proof (cases "0 < bs \<and> i < length texts")
    case False
    then show ?thesis by (simp add: batch_loop_done batches_done)
  next
    case True
    then show ?thesis
      using "1.IH" by (simp add: batch_loop_step batches_step split: sum.splits)
  qed
qed

lemma concat_batches: "0 < bs \<Longrightarrow> concat (batches bs texts i) = drop i texts"
proof (induction bs texts i rule: batches.induct)
  case (1 bs texts i)
  show ?case
  proof (cases "i < length texts")
    case False
    then show ?thesis by (simp add: batches_done)
  next
    case True
    have "take bs (drop i texts) @ drop (i + bs) texts = drop i texts"
      using append_take_drop_id [of bs "drop i texts"] by (simp add: add.commute)
    with True "1.prems" "1.IH" show ?thesis
      by (simp add: batches_step batch_texts_at_def)
  qed
qed

lemma batches_nth:
  "k < length (batches bs texts i) \<Longrightarrow>
     batches bs texts i ! k = batch_texts_at bs texts (i + k * bs) \<and> i + k * bs < length texts"
proof (induction bs texts i arbitrary: k rule: batches.induct)
  case (1 bs texts i)
  show ?case
  proof (cases "0 < bs \<and> i < length texts")
    case False
    with "1.prems" show ?thesis by (simp add: batches_done)
  next
    case True
    show ?thesis
    proof (cases k)
      case 0
      with True show ?thesis by (simp add: batches_step)
    next
      case (Suc k')
      with "1.prems" True have "k' < length (batches bs texts (i + bs))"
        by (simp add: batches_step)
      from "1.IH" [OF True this]
      have "batches bs texts (i + bs) ! k' = batch_texts_at bs texts (i + bs + k' * bs)"
        "i + bs + k' * bs < length texts" by simp_all
      with True Suc show ?thesis by (simp add: batches_step add.assoc)
    qed
  qed
qed

lemma batches_chunk_bounds:
  "c \<in> set (batches bs texts i) \<Longrightarrow> c \<noteq> [] \<and> length c \<le> bs"
proof -
  assume "c \<in> set (batches bs texts i)"
  then obtain k where k: "k < length (batches bs texts i)" "batches bs texts i ! k = c"
    by (auto simp: in_set_conv_nth)
  from batches_nth [OF k(1)] k(2)
  have "c = batch_texts_at bs texts (i + k * bs)" "i + k * bs < length texts" by simp_all
  moreover have "0 < bs"
  proof (rule ccontr)
    assume "\<not> 0 < bs"
    then have "batches bs texts i = []" by (simp add: batches_done)
    with k(1) show False by simp
  qed
  ultimately show ?thesis by (simp add: batch_texts_at_def)
qed

lemma batches_full_before_last:
  assumes "Suc k < length (batches bs texts i)"
  shows "length (batches bs texts i ! k) = bs"
proof -
  from batches_nth [OF assms] have a: "i + Suc k * bs < length texts" by simp
  from assms have "k < length (batches bs texts i)" by simp
  from batches_nth [OF this] have "batches bs texts i ! k = batch_texts_at bs texts (i + k * bs)"
    by simp
  with a show ?thesis by (simp add: batch_texts_at_def)
qed

lemma run_batches_Inr_all:
  "run_batches clf cs acc = Inr rs \<Longrightarrow> \<forall>c\<in>set cs. \<exists>rs'. run_chunk clf c = Inr rs'"
  by (induction cs arbitrary: acc) (auto split: sum.splits)

lemma run_batches_first_failure:
  "\<forall>c'\<in>set pre. \<exists>rs. run_chunk clf c' = Inr rs \<Longrightarrow> run_chunk clf c = Inl e \<Longrightarrow>
     run_batches clf (pre @ c # post) acc = Inl e"
  by (induction pre arbitrary: acc) (auto split: sum.splits)

subsection \<open>A classifier that scores text by text\<close>

lemma run_batches_itemwise:
  assumes "itemwise clf f"
  shows "\<forall>c\<in>set cs. c \<noteq> [] \<Longrightarrow>
     run_batches clf cs acc =
       (case label_batch (concat cs) (map (\<lambda>t. softmax (f t)) (concat cs)) of
          Inl e \<Rightarrow> Inl e
        | Inr rs \<Rightarrow> Inr (acc @ rs))"
proof (induction cs arbitrary: acc)
  case Nil
  then show ?case by simp
next
  case (Cons c cs)
  from Cons.prems have "c \<noteq> []" by simp
  with assms have "clf c = Inr (map f c)" by (simp add: itemwise_def)
  then have rc: "run_chunk clf c = label_batch c (map (\<lambda>t. softmax (f t)) c)"
    by (simp add: run_chunk_def comp_def)
  from Cons.prems have "\<forall>c\<in>set cs. c \<noteq> []" by simp
  note ih = Cons.IH [OF this]
  show ?case
    by (simp add: rc ih label_batch_append split: sum.splits)
qed

lemma analyze_batch_itemwise:
  assumes "itemwise (classifier self) f" and "1 \<le> batch_size self"
  shows "analyze_batch self texts = label_batch texts (map (\<lambda>t. softmax (f t)) texts)"
proof -
  let ?bs = "nat (batch_size self)"
  have bs: "0 < ?bs" using assms(2) by simp
  have ne: "\<forall>c\<in>set (batches ?bs texts 0). c \<noteq> []"
    using batches_chunk_bounds by blast
  have "analyze_batch self texts = run_batches (classifier self) (batches ?bs texts 0) []"
    using assms(2) by (simp add: analyze_batch_def batch_loop_run_batches)
  also have "\<dots> = (case label_batch (concat (batches ?bs texts 0))
                        (map (\<lambda>t. softmax (f t)) (concat (batches ?bs texts 0))) of
                    Inl e \<Rightarrow> Inl e | Inr rs \<Rightarrow> Inr ([] @ rs))"
    by (rule run_batches_itemwise [OF assms(1) ne])
  also have "\<dots> = label_batch texts (map (\<lambda>t. softmax (f t)) texts)"
    by (simp add: concat_batches [OF bs] split: sum.splits)
  finally show ?thesis .
qed

subsection \<open>Two classes and the example classifiers\<close>

lemma classify_row_softmax_pair:
  "classify_row t (softmax [a, b]) =
     Inr \<lparr>text_field = t, label = (if a < b then ''POSITIVE'' else ''NEGATIVE''),
          score = (if a < b then exp b / (exp a + exp b) else exp a / (exp a + exp b))\<rparr>"
proof -
  have pos: "0 < exp a + exp b" by (simp add: add_pos_pos)
  have "exp a / (exp a + exp b) < exp b / (exp a + exp b) \<longleftrightarrow> a < b"
    using pos by (simp add: divide_less_cancel)
  then show ?thesis
    by (simp add: softmax_pair argmax_pair classify_row_def label_of_def)
qed

lemma demo_results:
  "analyze_batch demo_analyzer [''good'', '''', ''bad''] =
     Inr [\<lparr>text_field = ''good'', label = ''POSITIVE'', score = exp 3 / (exp 0 + exp 3)\<rparr>,
          \<lparr>text_field = '''', label = ''NEGATIVE'', score = exp 0 / (exp 0 + exp (-1))\<rparr>,
          \<lparr>text_field = ''bad'', label = ''POSITIVE'', score = exp 2 / (exp 0 + exp 2)\<rparr>]"
  by (simp add: analyze_batch_def demo_analyzer_def demo_classifier_def batch_loop_step
      batch_loop_done run_chunk_def batch_texts_at_def classify_row_softmax_pair
      del: exp_zero)

lemma itemwise_demo: "itemwise demo_classifier (\<lambda>t. [0, real (length t) - 1])"
  by (simp add: itemwise_def demo_classifier_def)

lemma crowd_classifier_depends_on_chunking:
  "analyze_batch \<lparr>classifier = crowd_classifier, batch_size = 1\<rparr> [''a'', ''b'']
     \<noteq> analyze_batch \<lparr>classifier = crowd_classifier, batch_size = 2\<rparr> [''a'', ''b'']"
  by (simp add: analyze_batch_def crowd_classifier_def batch_loop_step
      batch_loop_done run_chunk_def batch_texts_at_def classify_row_softmax_pair)

subsection \<open>Results of analyze_batch\<close>

lemma analyze_batch_Inr_nth:
  assumes "analyze_batch self texts = Inr results" and "1 \<le> batch_size self"
  shows "length results = length texts"
    and "i < length texts \<Longrightarrow>
           classification_at (classifier self) (nat (batch_size self)) texts i = Inr (results ! i)"
proof -
  let ?bs = "nat (batch_size self)"
  have bs: "0 < ?bs" using assms(2) by simp
  from assms have "batch_loop (classifier self) ?bs texts 0 [] = Inr results"
    by (simp add: analyze_batch_def)
  from batch_loop_Inr [OF this bs] obtain tail where t: "results = [] @ tail"
    "length tail = length texts - 0"
    "\<forall>k. 0 \<le> k \<and> k < length texts \<longrightarrow>
        classification_at (classifier self) ?bs texts k = Inr (tail ! (k - 0))"
    by auto
  from t show "length results = length texts" by simp
  from t show "i < length texts \<Longrightarrow>
           classification_at (classifier self) ?bs texts i = Inr (results ! i)" by simp
qed

lemma analyze_batch_nonpositive:
  "analyze_batch self texts = Inr results \<Longrightarrow> \<not> 1 \<le> batch_size self \<Longrightarrow> results = []"
  by (auto simp: analyze_batch_def split: if_splits)

lemma classify_row_label: "classify_row t row = Inr r \<Longrightarrow> label r = ''POSITIVE'' \<or> label r = ''NEGATIVE''"
  by (auto simp: classify_row_def label_of_def split: sum.splits if_splits)

lemma classification_at_label:
  "classification_at clf bs texts k = Inr r \<Longrightarrow> label r = ''POSITIVE'' \<or> label r = ''NEGATIVE''"
  by (auto simp: classification_at_def split: sum.splits if_splits dest: classify_row_label)

lemma analyze_batch_labels:
  assumes "analyze_batch self texts = Inr results" and "r \<in> set results"
  shows "label r = ''POSITIVE'' \<or> label r = ''NEGATIVE''"
proof (cases "1 \<le> batch_size self")
  case False
  with assms show ?thesis using analyze_batch_nonpositive by fastforce
next
  case True
  from assms(2) obtain i where i: "i < length results" "results ! i = r"
    by (auto simp: in_set_conv_nth)
  from analyze_batch_Inr_nth [OF assms(1) True] i
  have "classification_at (classifier self) (nat (batch_size self)) texts i = Inr r" by simp
  then show ?thesis by (rule classification_at_label)
qed

subsection \<open>The summary\<close>

lemma count_label_length: "count_label lbl results = length (filter (\<lambda>r. label r = lbl) results)"
  unfolding count_label_def by (induction results) simp_all

lemma count_labels_total:
  "\<forall>r\<in>set results. label r = ''POSITIVE'' \<or> label r = ''NEGATIVE'' \<Longrightarrow>
     count_label ''POSITIVE'' results + count_label ''NEGATIVE'' results = length results"
  unfolding count_label_length by (induction results) auto

lemma avg_score_Inr:
  "avg_score lbl results =
     Inr (if 0 < count_label lbl results
          then score_sum lbl results / real (count_label lbl results) else 0)"
  by (simp add: avg_score_def py_truediv_def)

lemma summarize_Inr:
  "summarize results =
     Inr \<lparr>positive_count = count_label ''POSITIVE'' results,
          negative_count = count_label ''NEGATIVE'' results,
          positive_avg_confidence =
            (if 0 < count_label ''POSITIVE'' results
             then score_sum ''POSITIVE'' results / real (count_label ''POSITIVE'' results) else 0),
          negative_avg_confidence =
            (if 0 < count_label ''NEGATIVE'' results
             then score_sum ''NEGATIVE'' results / real (count_label ''NEGATIVE'' results) else 0),
          total_reviews = length results\<rparr>"
  by (simp add: summarize_def avg_score_Inr)

lemma count_label_card:
  "count_label lbl results = card {i. i < length results \<and> label (results ! i) = lbl}"
  unfolding count_label_length by (rule length_filter_conv_card)

lemma score_sum_index:
  "score_sum lbl results = (\<Sum>i | i < length results \<and> label (results ! i) = lbl. score (results ! i))"
proof -
  have "score_sum lbl results
          = sum_list (map (\<lambda>r. if label r = lbl then score r else 0) results)"
    unfolding score_sum_def by (rule sum_list_map_filter')
  also have "\<dots> = (\<Sum>i = 0..<length results. if label (results ! i) = lbl then score (results ! i) else 0)"
    by (simp add: sum_list_sum_nth)
  also have "\<dots> = (\<Sum>i \<in> {i \<in> {0..<length results}. label (results ! i) = lbl}. score (results ! i))"
    by (rule sum.inter_filter [symmetric]) simp
  also have "{i \<in> {0..<length results}. label (results ! i) = lbl}
               = {i. i < length results \<and> label (results ! i) = lbl}" by auto
  finally show ?thesis .
qed

lemma demo_analyzer_results: "analyze_batch demo_analyzer [''good'', '''', ''bad''] = Inr demo_results_list"
  unfolding demo_results_list_def by (rule demo_results)

lemma summarize_fields:
  assumes "summarize results = Inr s"
  shows "positive_count s = count_label ''POSITIVE'' results"
    and "negative_count s = count_label ''NEGATIVE'' results"
    and "total_reviews s = length results"
    and "positive_avg_confidence s =
           (if 0 < count_label ''POSITIVE'' results
            then score_sum ''POSITIVE'' results / real (count_label ''POSITIVE'' results) else 0)"
    and "negative_avg_confidence s =
           (if 0 < count_label ''NEGATIVE'' results
            then score_sum ''NEGATIVE'' results / real (count_label ''NEGATIVE'' results) else 0)"
proof -
  from assms have "s = \<lparr>positive_count = count_label ''POSITIVE'' results,
          negative_count = count_label ''NEGATIVE'' results,
          positive_avg_confidence =
            (if 0 < count_label ''POSITIVE'' results
             then score_sum ''POSITIVE'' results / real (count_label ''POSITIVE'' results) else 0),
          negative_avg_confidence =
            (if 0 < count_label ''NEGATIVE'' results
             then score_sum ''NEGATIVE'' results / real (count_label ''NEGATIVE'' results) else 0),
          total_reviews = length results\<rparr>"
    unfolding summarize_Inr by (simp only: sum.inject)
  then show "positive_count s = count_label ''POSITIVE'' results"
    and "negative_count s = count_label ''NEGATIVE'' results"
    and "total_reviews s = length results"
    and "positive_avg_confidence s =
           (if 0 < count_label ''POSITIVE'' results
            then score_sum ''POSITIVE'' results / real (count_label ''POSITIVE'' results) else 0)"
    and "negative_avg_confidence s =
           (if 0 < count_label ''NEGATIVE'' results
            then score_sum ''NEGATIVE'' results / real (count_label ''NEGATIVE'' results) else 0)"
    by simp_all
qed

lemma demo_counts:
  "count_label ''POSITIVE'' demo_results_list = 2" "count_label ''NEGATIVE'' demo_results_list = 1"
  by (simp_all add: count_label_def demo_results_list_def)

lemma positive_counts:
  "count_label ''POSITIVE'' positive_results = 2" "count_label ''NEGATIVE'' positive_results = 0"
  "score_sum ''POSITIVE'' positive_results = 8 / 5"
  by (simp_all add: count_label_def score_sum_def positive_results_def)

lemma two_class_demo: "two_class demo_classifier"
  by (auto simp: two_class_def demo_classifier_def)

subsection \<open>Validation\<close>

lemma validate_csv_nonempty: "validate_csv df = Some msg \<Longrightarrow> msg \<noteq> []"
  by (auto simp: validate_csv_def missing_column_msg_def empty_dataset_msg_def split: if_splits)

subsection \<open>Runs of the relational loop\<close>

lemma batch_run_deterministic:
  assumes "deterministic call"
  shows "batch_run call bs texts i acc out1 \<Longrightarrow> batch_run call bs texts i acc out2 \<Longrightarrow> out1 = out2"
proof (induction arbitrary: out2 rule: batch_run.induct)
  case (finished i results)
  from finished.prems finished.hyps show ?case
    by (cases rule: batch_run.cases) auto
next
  case (model_raises i e results)
  from model_raises.prems show ?case
  proof (cases rule: batch_run.cases)
    case finished
    with model_raises.hyps show ?thesis by simp
  next
    case (model_raises e')
    with assms \<open>call (batch_texts_at bs texts i) (Inl e)\<close> show ?thesis
      unfolding deterministic_def by blast
  next
    case (labelling_raises logits e')
    with assms \<open>call (batch_texts_at bs texts i) (Inl e)\<close> show ?thesis
      unfolding deterministic_def by blast
  next
    case (next_batch logits rs)
    with assms \<open>call (batch_texts_at bs texts i) (Inl e)\<close> show ?thesis
      unfolding deterministic_def by blast
  qed
next
  case (labelling_raises i logits e results)
  from labelling_raises.prems show ?case
  proof (cases rule: batch_run.cases)
    case finished
    with labelling_raises.hyps show ?thesis by simp
  next
    case (model_raises e')
    with assms \<open>call (batch_texts_at bs texts i) (Inr logits)\<close> show ?thesis
      unfolding deterministic_def by blast
  next
    case (labelling_raises logits' e')
    with assms \<open>call (batch_texts_at bs texts i) (Inr logits)\<close> have "logits' = logits"
      unfolding deterministic_def by blast
    with labelling_raises \<open>label_batch (batch_texts_at bs texts i) (map softmax logits) = Inl e\<close>
    show ?thesis by simp
  next
    case (next_batch logits' rs)
    with assms \<open>call (batch_texts_at bs texts i) (Inr logits)\<close> have "logits' = logits"
      unfolding deterministic_def by blast
    with next_batch \<open>label_batch (batch_texts_at bs texts i) (map softmax logits) = Inl e\<close>
    show ?thesis by simp
  qed
next
  case (next_batch i logits rs results out)
  from next_batch.prems show ?case
  proof (cases rule: batch_run.cases)
    case finished
    with next_batch.hyps show ?thesis by simp
  next
    case (model_raises e')
    with assms \<open>call (batch_texts_at bs texts i) (Inr logits)\<close> show ?thesis
      unfolding deterministic_def by blast
  next
    case (labelling_raises logits' e')
    with assms \<open>call (batch_texts_at bs texts i) (Inr logits)\<close> have "logits' = logits"
      unfolding deterministic_def by blast
    with labelling_raises \<open>label_batch (batch_texts_at bs texts i) (map softmax logits) = Inr rs\<close>
    show ?thesis by simp
  next
    case (next_batch logits' rs')
    with assms \<open>call (batch_texts_at bs texts i) (Inr logits)\<close> have l: "logits' = logits"
      unfolding deterministic_def by blast
    with next_batch \<open>label_batch (batch_texts_at bs texts i) (map softmax logits) = Inr rs\<close>
    have "rs' = rs" by simp
    with next_batch have "batch_run call bs texts (i + bs) (results @ rs) out2" by simp
    then show ?thesis by (rule next_batch.IH)
  qed
qed

lemma batch_run_batch_loop:
  "0 < bs \<Longrightarrow> batch_run (\<lambda>chunk out. clf chunk = out) bs texts i acc (batch_loop clf bs texts i acc)"
proof (induction clf bs texts i acc rule: batch_loop.induct)
  case (1 clf bs texts i acc)
  let ?c = "batch_texts_at bs texts i"
  show ?case
  proof (cases "i < length texts")
    case False
    with "1.prems" show ?thesis by (simp add: batch_loop_done batch_run.finished)
  next
    case True
    show ?thesis
    proof (cases "clf ?c")
      case (Inl e)
      with True "1.prems" have "batch_loop clf bs texts i acc = Inl e"
        by (simp add: batch_loop_step run_chunk_def)
      with True Inl show ?thesis by (simp add: batch_run.model_raises)
    next
      case (Inr logits)
      show ?thesis
      proof (cases "label_batch ?c (map softmax logits)")
        case (Inl e)
        with True "1.prems" Inr have "batch_loop clf bs texts i acc = Inl e"
          by (simp add: batch_loop_step run_chunk_def)
        with True Inr Inl show ?thesis
          using batch_run.labelling_raises [of i texts "\<lambda>chunk out. clf chunk = out" bs logits e acc]
          by simp
      next
        case lb: (Inr rs)
        with Inr have rc: "run_chunk clf ?c = Inr rs" by (simp add: run_chunk_def)
        with True "1.prems" have eq: "batch_loop clf bs texts i acc = batch_loop clf bs texts (i + bs) (acc @ rs)"
          by (simp add: batch_loop_step)
        from "1.IH" [OF _ rc "1.prems"] True "1.prems"
        have "batch_run (\<lambda>chunk out. clf chunk = out) bs texts (i + bs) (acc @ rs)
                (batch_loop clf bs texts (i + bs) (acc @ rs))" by simp
        with True Inr lb show ?thesis
          unfolding eq
          using batch_run.next_batch [of i texts "\<lambda>chunk out. clf chunk = out" bs logits rs acc]
          by simp
      qed
    qed
  qed
qed

lemma deterministic_function: "deterministic (\<lambda>chunk out. clf chunk = out)"
  by (simp add: deterministic_def)

lemma analyze_batch_run_analyze_batch:
  "analyze_batch_run (\<lambda>chunk out. classifier self chunk = out) (batch_size self) texts
     (analyze_batch self texts)"
  by (simp add: analyze_batch_run_def analyze_batch_def batch_run_batch_loop)

subsection \<open>Agreement with the single-text path\<close>

lemma analyze_text_itemwise:
  assumes "itemwise (classifier self) f" and "f t \<noteq> []"
  shows "analyze_text self t = classify_row t (softmax (f t))"
proof -
  from assms(1) have c: "classifier self [t] = Inr [f t]" by (simp add: itemwise_def)
  from assms(2) have "softmax (f t) \<noteq> []" by (simp add: softmax_eq_Nil)
  from argmax_spec [OF this] obtain k where k: "argmax (softmax (f t)) = Inr k"
    "k < length (softmax (f t))" by blast
  show ?thesis
    by (simp add: analyze_text_def c k classify_row_def)
qed

lemma analyze_batch_agrees_with_analyze_text:
  assumes "itemwise (classifier self) f" and "\<forall>t\<in>set texts. f t \<noteq> []" and "1 \<le> batch_size self"
  shows "\<exists>results. analyze_batch self texts = Inr results \<and> length results = length texts \<and>
           (\<forall>i<length texts. analyze_text self (texts ! i) = Inr (results ! i))"
proof -
  let ?g = "\<lambda>t. softmax (f t)"
  have a: "analyze_batch self texts = label_batch texts (map ?g texts)"
    by (rule analyze_batch_itemwise [OF assms(1,3)])
  have "\<exists>rs. label_batch texts (map ?g texts) = Inr rs"
    by (rule label_batch_total) (use assms(2) in \<open>auto simp: softmax_eq_Nil\<close>)
  then obtain rs where rs: "label_batch texts (map ?g texts) = Inr rs" by blast
  note lbi = label_batch_Inr [OF rs]
  from lbi have len: "length rs = length texts" by blast
  have "\<forall>i<length texts. analyze_text self (texts ! i) = Inr (rs ! i)"
  proof (intro allI impI)
    fix i assume i: "i < length texts"
    with lbi have "classify_row (texts ! i) (map ?g texts ! i) = Inr (rs ! i)" by blast
    with i have "classify_row (texts ! i) (softmax (f (texts ! i))) = Inr (rs ! i)" by simp
    moreover from i assms(2) have "f (texts ! i) \<noteq> []" by simp
    ultimately show "analyze_text self (texts ! i) = Inr (rs ! i)"
      using analyze_text_itemwise [OF assms(1)] by simp
  qed
  with a rs len show ?thesis by simp
qed

section \<open>Claims\<close>

text \<open>
  C1. For a batch size of at least 1, every list that \<^verbatim>\<open>analyze_batch\<close> returns is as long
  as the input, and its entry at index \<open>i\<close> carries the text at index \<open>i\<close> and is the
  classification of that text, wherever the chunk boundaries fall; and it does return a
  list when the classifier answers every chunk with one row of logits per text.
\<close>

theorem analyze_batch_length_and_order:
  assumes "1 \<le> batch_size self"
  shows "(\<forall>results. analyze_batch self texts = Inr results \<longrightarrow>
            length results = length texts \<and>
            (\<forall>i<length texts.
               text_field (results ! i) = texts ! i \<and>
               classification_at (classifier self) (nat (batch_size self)) texts i
                 = Inr (results ! i))) \<and>
         (well_shaped (classifier self) \<longrightarrow> (\<exists>results. analyze_batch self texts = Inr results))"
proof (intro conjI allI impI)
  fix results assume r: "analyze_batch self texts = Inr results"
  from analyze_batch_Inr_nth(1) [OF r assms] show "length results = length texts" .
next
  fix results i assume r: "analyze_batch self texts = Inr results" and i: "i < length texts"
  from analyze_batch_Inr_nth(2) [OF r assms i]
  show c: "classification_at (classifier self) (nat (batch_size self)) texts i = Inr (results ! i)" .
  from classification_at_text [OF c] show "text_field (results ! i) = texts ! i" .
next
  assume "well_shaped (classifier self)"
  from batch_loop_total [OF this]
  obtain rs where "batch_loop (classifier self) (nat (batch_size self)) texts 0 [] = Inr rs"
    by blast
  with assms have "analyze_batch self texts = Inr rs" by (simp add: analyze_batch_def)
  then show "\<exists>results. analyze_batch self texts = Inr results" by (rule exI)
qed

theorem analyze_batch_length_and_order_witness:
  "1 \<le> batch_size demo_analyzer \<and> well_shaped (classifier demo_analyzer) \<and>
   analyze_batch demo_analyzer [''good'', '''', ''bad''] = Inr demo_results_list \<and>
   length demo_results_list = length [''good'', '''', ''bad''] \<and>
   text_field (demo_results_list ! 2) = [''good'', '''', ''bad''] ! 2 \<and>
   classification_at demo_classifier 2 [''good'', '''', ''bad''] 2 = Inr (demo_results_list ! 2)"
proof -
  have h1: "1 \<le> batch_size demo_analyzer" by (simp add: demo_analyzer_def)
  have h2: "well_shaped (classifier demo_analyzer)" by (simp add: demo_analyzer_def well_shaped_demo)
  note inst = analyze_batch_length_and_order [OF h1, of "[''good'', '''', ''bad'']"]
  from inst demo_analyzer_results
  have len: "length demo_results_list = length [''good'', '''', ''bad'']"
    and items: "\<forall>i<length [''good'', '''', ''bad''].
        text_field (demo_results_list ! i) = [''good'', '''', ''bad''] ! i \<and>
        classification_at (classifier demo_analyzer) (nat (batch_size demo_analyzer))
          [''good'', '''', ''bad''] i = Inr (demo_results_list ! i)"
    by blast+
  have "(2::nat) < length [''good'', '''', ''bad'']" by simp
  with items have "text_field (demo_results_list ! 2) = [''good'', '''', ''bad''] ! 2 \<and>
        classification_at (classifier demo_analyzer) (nat (batch_size demo_analyzer))
          [''good'', '''', ''bad''] 2 = Inr (demo_results_list ! 2)" by blast
  then have "text_field (demo_results_list ! 2) = [''good'', '''', ''bad''] ! 2"
    and "classification_at demo_classifier 2 [''good'', '''', ''bad''] 2 = Inr (demo_results_list ! 2)"
    by (simp_all add: demo_analyzer_def)
  with h1 h2 len demo_analyzer_results show ?thesis by (intro conjI)
qed

text \<open>
  C2. What \<^verbatim>\<open>analyze_reviews\<close> does with a file whose name ends in \<open>.csv\<close> and whose
  content parses to a frame that the validator rejects: the HTTPException with status 400
  is raised inside the \<^verbatim>\<open>try\<close> block, is caught by \<^verbatim>\<open>except Exception\<close>, and
  the response is status 500 with the text of that exception in its detail, not status
  400 with the validator's message.
\<close>

theorem validation_failure_is_status_500:
  assumes "endswith (filename file) ''.csv''"
    and "read_csv ext (content file) = Inr df"
    and "validate_csv df = Some msg"
  shows "analyze_reviews ext analyzer file =
           Inl (HTTPException 500 (''Error processing CSV: '' @ exn_str ext (HTTPException 400 msg)))"
proof -
  from assms(3) have "msg \<noteq> []" by (rule validate_csv_nonempty)
  with assms(2,3) have "analyze_reviews_body ext analyzer (content file) = Inl (HTTPException 400 msg)"
    by (simp add: analyze_reviews_body_def)
  with assms(1) show ?thesis by (simp add: analyze_reviews_def)
qed

theorem validation_failure_is_status_500_witness:
  "endswith (filename no_review_upload) ''.csv'' \<and>
   read_csv demo_externals (content no_review_upload) = Inr no_review_frame \<and>
   validate_csv no_review_frame = Some ''CSV file must contain a 'review' column'' \<and>
   analyze_reviews demo_externals demo_analyzer no_review_upload =
     Inl (HTTPException 500 ''Error processing CSV: 400: CSV file must contain a 'review' column'')"
proof -
  have h1: "endswith (filename no_review_upload) ''.csv''"
    by (simp add: no_review_upload_def endswith_def)
  have h2: "read_csv demo_externals (content no_review_upload) = Inr no_review_frame"
    by (simp add: demo_externals_def demo_read_csv_def no_review_upload_def)
  have h3: "validate_csv no_review_frame = Some ''CSV file must contain a 'review' column''"
    by (simp add: validate_csv_def no_review_frame_def column_names_def missing_column_msg_def)
  from validation_failure_is_status_500 [OF h1 h2 h3, of demo_analyzer]
  have "analyze_reviews demo_externals demo_analyzer no_review_upload =
     Inl (HTTPException 500 ''Error processing CSV: 400: CSV file must contain a 'review' column'')"
    by (simp add: demo_externals_def demo_exn_str_def)
  with h1 h2 h3 show ?thesis by (intro conjI)
qed

text \<open>
  C3. For a batch size of at least 1, the loop of \<^verbatim>\<open>analyze_batch\<close> processes exactly the
  chunks \<open>batches\<close>, and these partition the input: their concatenation is the whole
  input, chunk \<open>k\<close> is the slice of at most \<open>batch_size\<close> texts that starts at index
  \<open>k * batch_size\<close>, no chunk is empty, and every chunk but the last has exactly
  \<open>batch_size\<close> texts.
\<close>

theorem batches_partition:
  assumes "1 \<le> batch_size self"
  shows "analyze_batch self texts =
           run_batches (classifier self) (batches (nat (batch_size self)) texts 0) [] \<and>
         concat (batches (nat (batch_size self)) texts 0) = texts \<and>
         (\<forall>k<length (batches (nat (batch_size self)) texts 0).
            batches (nat (batch_size self)) texts 0 ! k
              = take (nat (batch_size self)) (drop (k * nat (batch_size self)) texts) \<and>
            batches (nat (batch_size self)) texts 0 ! k \<noteq> [] \<and>
            length (batches (nat (batch_size self)) texts 0 ! k) \<le> nat (batch_size self) \<and>
            (Suc k < length (batches (nat (batch_size self)) texts 0) \<longrightarrow>
               length (batches (nat (batch_size self)) texts 0 ! k) = nat (batch_size self)))"
proof -
  let ?bs = "nat (batch_size self)"
  have bs: "0 < ?bs" using assms by simp
  have a: "analyze_batch self texts = run_batches (classifier self) (batches ?bs texts 0) []"
    using assms by (simp add: analyze_batch_def batch_loop_run_batches)
  have b: "concat (batches ?bs texts 0) = texts"
    using concat_batches [OF bs, of texts 0] by simp
  have c: "\<forall>k<length (batches ?bs texts 0).
            batches ?bs texts 0 ! k = take ?bs (drop (k * ?bs) texts) \<and>
            batches ?bs texts 0 ! k \<noteq> [] \<and>
            length (batches ?bs texts 0 ! k) \<le> ?bs \<and>
            (Suc k < length (batches ?bs texts 0) \<longrightarrow> length (batches ?bs texts 0 ! k) = ?bs)"
  proof (intro allI impI conjI)
    fix k assume k: "k < length (batches ?bs texts 0)"
    from batches_nth [OF k] show "batches ?bs texts 0 ! k = take ?bs (drop (k * ?bs) texts)"
      by (simp add: batch_texts_at_def)
    from k have m: "batches ?bs texts 0 ! k \<in> set (batches ?bs texts 0)" by simp
    from batches_chunk_bounds [OF m] show "batches ?bs texts 0 ! k \<noteq> []"
      and "length (batches ?bs texts 0 ! k) \<le> ?bs" by simp_all
  next
    fix k assume "Suc k < length (batches ?bs texts 0)"
    then show "length (batches ?bs texts 0 ! k) = ?bs" by (rule batches_full_before_last)
  qed
  from a b c show ?thesis by blast
qed

theorem batches_partition_witness:
  "1 \<le> batch_size demo_analyzer \<and>
   batches 2 [''good'', '''', ''bad''] 0 = [[''good'', ''''], [''bad'']] \<and>
   concat (batches 2 [''good'', '''', ''bad''] 0) = [''good'', '''', ''bad''] \<and>
   analyze_batch demo_analyzer [''good'', '''', ''bad'']
     = run_batches demo_classifier [[''good'', ''''], [''bad'']] []"
proof -
  have h: "1 \<le> batch_size demo_analyzer" by (simp add: demo_analyzer_def)
  have b: "batches 2 [''good'', '''', ''bad''] 0 = [[''good'', ''''], [''bad'']]"
    by (simp add: batches_step batches_done batch_texts_at_def)
  from batches_partition [OF h, of "[''good'', '''', ''bad'']"]
  have "analyze_batch demo_analyzer [''good'', '''', ''bad'']
          = run_batches (classifier demo_analyzer)
              (batches (nat (batch_size demo_analyzer)) [''good'', '''', ''bad''] 0) []"
    and "concat (batches (nat (batch_size demo_analyzer)) [''good'', '''', ''bad''] 0)
          = [''good'', '''', ''bad'']"
    by blast+
  then show ?thesis using h b by (simp add: demo_analyzer_def)
qed

text \<open>
  C4. For a classifier that scores each text on its own (a scoring function of the text,
  whatever else is in the chunk), any two batch sizes of at least 1 give the same outcome
  of \<^verbatim>\<open>analyze_batch\<close>: the same labels and scores, item by item.
\<close>

theorem batch_size_invariance:
  assumes "itemwise (classifier self) f" and "1 \<le> b1" and "1 \<le> b2"
  shows "analyze_batch (self\<lparr>batch_size := b1\<rparr>) texts = analyze_batch (self\<lparr>batch_size := b2\<rparr>) texts"
proof -
  have "analyze_batch (self\<lparr>batch_size := b\<rparr>) texts
          = label_batch texts (map (\<lambda>t. softmax (f t)) texts)" if "1 \<le> b" for b
    by (rule analyze_batch_itemwise) (use assms(1) that in simp_all)
  with assms(2,3) show ?thesis by simp
qed

theorem batch_size_invariance_witness:
  "itemwise (classifier demo_analyzer) (\<lambda>t. [0, real (length t) - 1]) \<and>
   analyze_batch (demo_analyzer\<lparr>batch_size := 1\<rparr>) [''good'', '''', ''bad'']
     = analyze_batch (demo_analyzer\<lparr>batch_size := 7\<rparr>) [''good'', '''', ''bad'']"
proof -
  have h: "itemwise (classifier demo_analyzer) (\<lambda>t. [0, real (length t) - 1])"
    by (simp add: demo_analyzer_def itemwise_demo)
  from batch_size_invariance [OF h, of 1 7 "[''good'', '''', ''bad'']"] h
  show ?thesis by simp
qed

text \<open>
  C5. \<^verbatim>\<open>validate_csv\<close> returns the missing-column message when the frame has no column
  \<open>review\<close>, the empty-dataset message when it has the column and no row, and no error
  when it has the column and at least one row; two frames with the same column names and
  the same number of rows get the same answer.
\<close>

theorem validate_csv_cases:
  "validate_csv df =
     (if ''review'' \<notin> set (column_names df) then Some ''CSV file must contain a 'review' column''
      else if nrows df = 0 then Some ''CSV file is empty''
      else None) \<and>
   (column_names df' = column_names df \<and> nrows df' = nrows df \<longrightarrow>
      validate_csv df' = validate_csv df)"
proof -
  have ne: "''review'' \<in> set (column_names d) \<Longrightarrow> columns d \<noteq> []" for d
    by (auto simp: column_names_def)
  have eq: "validate_csv d =
     (if ''review'' \<notin> set (column_names d) then Some ''CSV file must contain a 'review' column''
      else if nrows d = 0 then Some ''CSV file is empty''
      else None)" for d
    using ne [of d]
    by (simp add: validate_csv_def df_empty_def missing_column_msg_def empty_dataset_msg_def)
  show ?thesis
    by (simp add: eq [of df] eq [of df'])
qed

theorem validate_csv_cases_witness:
  "validate_csv no_review_frame = Some ''CSV file must contain a 'review' column'' \<and>
   validate_csv header_only_frame = Some ''CSV file is empty'' \<and>
   validate_csv review_frame = None \<and>
   validate_csv (review_frame\<lparr>columns := [(''review'', [Str ''bad'', Str ''worse''])]\<rparr>)
     = validate_csv review_frame"
proof -
  have a: "validate_csv no_review_frame = Some ''CSV file must contain a 'review' column''"
    using validate_csv_cases [of no_review_frame no_review_frame]
    by (simp add: no_review_frame_def column_names_def)
  have b: "validate_csv header_only_frame = Some ''CSV file is empty''"
    using validate_csv_cases [of header_only_frame header_only_frame]
    by (simp add: header_only_frame_def column_names_def)
  have c: "validate_csv review_frame = None"
    using validate_csv_cases [of review_frame review_frame]
    by (simp add: review_frame_def column_names_def)
  have d: "validate_csv (review_frame\<lparr>columns := [(''review'', [Str ''bad'', Str ''worse''])]\<rparr>)
     = validate_csv review_frame"
    using validate_csv_cases [of review_frame
       "review_frame\<lparr>columns := [(''review'', [Str ''bad'', Str ''worse''])]\<rparr>"]
    by (simp add: review_frame_def column_names_def)
  from a b c d show ?thesis by (intro conjI)
qed

text \<open>
  C6. For a two-class classifier and a batch size of at least 1, every item that
  \<^verbatim>\<open>analyze_batch\<close> returns is read off the softmax distribution \<open>[p0, p1]\<close> of its row:
  the label is NEGATIVE exactly when index 0 has the maximum probability and POSITIVE
  otherwise, the score is the probability of the chosen label, and it is at least 1/2.
\<close>

theorem two_way_argmax:
  assumes "1 \<le> batch_size self" and "two_class (classifier self)"
    and "analyze_batch self texts = Inr results" and "i < length results"
  shows "\<exists>logits p0 p1.
           classifier self (batch_texts_at (nat (batch_size self)) texts
              ((i div nat (batch_size self)) * nat (batch_size self))) = Inr logits \<and>
           i mod nat (batch_size self) < length logits \<and>
           softmax (logits ! (i mod nat (batch_size self))) = [p0, p1] \<and>
           0 < p0 \<and> 0 < p1 \<and> p0 + p1 = 1 \<and>
           (label (results ! i) = ''NEGATIVE'') = (p1 \<le> p0) \<and>
           (label (results ! i) = ''POSITIVE'') = (p0 < p1) \<and>
           score (results ! i) = (if label (results ! i) = ''NEGATIVE'' then p0 else p1) \<and>
           score (results ! i) = max p0 p1 \<and>
           1 / 2 \<le> score (results ! i)"
proof -
  let ?bs = "nat (batch_size self)"
  let ?j = "i mod ?bs"
  from analyze_batch_Inr_nth [OF assms(3,1)] assms(4)
  have c: "classification_at (classifier self) ?bs texts i = Inr (results ! i)" by simp
  then obtain logits where l: "classifier self (batch_texts_at ?bs texts ((i div ?bs) * ?bs)) = Inr logits"
    and j: "?j < length logits"
    and r: "classify_row (texts ! i) (softmax (logits ! ?j)) = Inr (results ! i)"
    by (auto simp: classification_at_def split: sum.splits if_splits)
  from j have "logits ! ?j \<in> set logits" by simp
  with assms(2) l have "length (logits ! ?j) = 2" unfolding two_class_def by blast
  then obtain a b where ab: "logits ! ?j = [a, b]"
    by (cases "logits ! ?j"; cases "tl (logits ! ?j)") auto
  define p0 where "p0 = exp a / (exp a + exp b)"
  define p1 where "p1 = exp b / (exp a + exp b)"
  have pos: "0 < exp a + exp b" by (simp add: add_pos_pos)
  have sm: "softmax (logits ! ?j) = [p0, p1]" by (simp add: ab softmax_pair p0_def p1_def)
  have p0: "0 < p0" and p1: "0 < p1" using pos by (simp_all add: p0_def p1_def)
  have one: "p0 + p1 = 1"
    using pos by (simp add: p0_def p1_def add_divide_distrib [symmetric])
  have lt: "p0 < p1 \<longleftrightarrow> a < b"
    using pos by (simp add: p0_def p1_def divide_less_cancel)
  from r have "Inr (results ! i) =
      (Inr \<lparr>text_field = texts ! i, label = (if a < b then ''POSITIVE'' else ''NEGATIVE''),
       score = (if a < b then p1 else p0)\<rparr> :: exn + result)"
    unfolding ab classify_row_softmax_pair p0_def p1_def by (rule sym)
  then have res: "results ! i =
      \<lparr>text_field = texts ! i, label = (if a < b then ''POSITIVE'' else ''NEGATIVE''),
       score = (if a < b then p1 else p0)\<rparr>"
    by (simp only: sum.inject)
  have lab: "(label (results ! i) = ''NEGATIVE'') = (p1 \<le> p0)"
    "(label (results ! i) = ''POSITIVE'') = (p0 < p1)"
    using lt by (auto simp: res)
  have sc: "score (results ! i) = (if label (results ! i) = ''NEGATIVE'' then p0 else p1)"
    by (simp add: res)
  have mx: "score (results ! i) = max p0 p1"
    using lt by (auto simp: res max_def)
  have half: "1 / 2 \<le> score (results ! i)"
    using one mx by (simp add: max_def split: if_splits)
  from l j sm p0 p1 one lab sc mx half show ?thesis by blast
qed

theorem two_way_argmax_witness:
  "1 \<le> batch_size demo_analyzer \<and> two_class (classifier demo_analyzer) \<and>
   analyze_batch demo_analyzer [''good'', '''', ''bad''] = Inr demo_results_list \<and>
   1 < length demo_results_list \<and>
   label (demo_results_list ! 1) = ''NEGATIVE'' \<and>
   1 / 2 \<le> score (demo_results_list ! 1)"
proof -
  have h1: "1 \<le> batch_size demo_analyzer" by (simp add: demo_analyzer_def)
  have h2: "two_class (classifier demo_analyzer)" by (simp add: demo_analyzer_def two_class_demo)
  have h4: "1 < length demo_results_list" by (simp add: demo_results_list_def)
  from two_way_argmax [OF h1 h2 demo_analyzer_results h4]
  have "1 / 2 \<le> score (demo_results_list ! 1)" by blast
  moreover have "label (demo_results_list ! 1) = ''NEGATIVE''" by (simp add: demo_results_list_def)
  ultimately show ?thesis using h1 h2 h4 demo_analyzer_results by blast
qed

text \<open>
  C7. The summary of any result list is computed without an error; it reports for each
  label the number of items with that label, for a label with a positive count the
  arithmetic mean of the scores of those items, and for a label with no item the mean 0.
\<close>

theorem summary_counts_and_means:
  "\<exists>s. summarize results = Inr s \<and>
     total_reviews s = length results \<and>
     positive_count s = card {i. i < length results \<and> label (results ! i) = ''POSITIVE''} \<and>
     negative_count s = card {i. i < length results \<and> label (results ! i) = ''NEGATIVE''} \<and>
     (0 < positive_count s \<longrightarrow>
        positive_avg_confidence s =
          (\<Sum>i | i < length results \<and> label (results ! i) = ''POSITIVE''. score (results ! i))
            / real (positive_count s)) \<and>
     (0 < negative_count s \<longrightarrow>
        negative_avg_confidence s =
          (\<Sum>i | i < length results \<and> label (results ! i) = ''NEGATIVE''. score (results ! i))
            / real (negative_count s)) \<and>
     (positive_count s = 0 \<longrightarrow> positive_avg_confidence s = 0) \<and>
     (negative_count s = 0 \<longrightarrow> negative_avg_confidence s = 0)"
  by (simp add: summarize_Inr count_label_card [symmetric] score_sum_index [symmetric])

theorem summary_counts_and_means_witness:
  "\<exists>s. summarize positive_results = Inr s \<and> total_reviews s = 2 \<and>
        positive_count s = 2 \<and> positive_avg_confidence s = 4 / 5 \<and>
        negative_count s = 0 \<and> negative_avg_confidence s = 0"
proof -
  from summary_counts_and_means [of positive_results]
  obtain s where s1: "summarize positive_results = Inr s"
    and s2: "total_reviews s = length positive_results"
    and s3: "negative_count s = 0 \<longrightarrow> negative_avg_confidence s = 0"
    by (elim exE conjE)
  have c: "positive_count s = 2" "negative_count s = 0" "positive_avg_confidence s = 4 / 5"
    using summarize_fields(1,2,4) [OF s1] by (simp_all add: positive_counts)
  from s3 c(2) have n: "negative_avg_confidence s = 0" by (rule mp)
  from s2 have t: "total_reviews s = 2" by (simp add: positive_results_def)
  have "summarize positive_results = Inr s \<and> total_reviews s = 2 \<and>
        positive_count s = 2 \<and> positive_avg_confidence s = 4 / 5 \<and>
        negative_count s = 0 \<and> negative_avg_confidence s = 0"
    using s1 t c n by (intro conjI)
  then show ?thesis by (rule exI)
qed

text \<open>
  C8. If the classifier raises on one of the chunks, \<^verbatim>\<open>analyze_batch\<close> returns no result
  list but an exception, whatever the earlier chunks produced; when the chunks before
  it were processed without an exception, the exception that leaves \<^verbatim>\<open>analyze_batch\<close> is
  the one the classifier raised.
\<close>

theorem analyze_batch_propagates:
  assumes "1 \<le> batch_size self"
    and "batches (nat (batch_size self)) texts 0 = pre @ c # post"
    and "classifier self c = Inl e"
  shows "(\<exists>e'. analyze_batch self texts = Inl e') \<and>
         ((\<forall>c'\<in>set pre. \<exists>rs. run_chunk (classifier self) c' = Inr rs) \<longrightarrow>
            analyze_batch self texts = Inl e)"
proof -
  let ?bs = "nat (batch_size self)"
  have a: "analyze_batch self texts = run_batches (classifier self) (pre @ c # post) []"
    using assms(1,2) by (simp add: analyze_batch_def batch_loop_run_batches)
  have rc: "run_chunk (classifier self) c = Inl e" using assms(3) by (simp add: run_chunk_def)
  have "\<exists>e'. analyze_batch self texts = Inl e'"
  proof (cases "analyze_batch self texts")
    case (Inl e')
    then show ?thesis by blast
  next
    case (Inr rs)
    with a have "run_batches (classifier self) (pre @ c # post) [] = Inr rs" by simp
    from run_batches_Inr_all [OF this] have "\<exists>rs'. run_chunk (classifier self) c = Inr rs'" by simp
    with rc show ?thesis by simp
  qed
  moreover have "(\<forall>c'\<in>set pre. \<exists>rs. run_chunk (classifier self) c' = Inr rs) \<longrightarrow>
            analyze_batch self texts = Inl e"
    using run_batches_first_failure [OF _ rc, of pre post "[]"] a by simp
  ultimately show ?thesis by blast
qed

theorem analyze_batch_propagates_witness:
  "1 \<le> batch_size failing_analyzer \<and>
   batches (nat (batch_size failing_analyzer)) [''good'', '''', ''boom''] 0
     = [[''good'', '''']] @ [''boom''] # [] \<and>
   classifier failing_analyzer [''boom''] = Inl (External ''model error'') \<and>
   (\<exists>rs. run_chunk (classifier failing_analyzer) [''good'', ''''] = Inr rs) \<and>
   analyze_batch failing_analyzer [''good'', '''', ''boom''] = Inl (External ''model error'')"
proof -
  have h1: "1 \<le> batch_size failing_analyzer" by (simp add: failing_analyzer_def)
  have h2: "batches (nat (batch_size failing_analyzer)) [''good'', '''', ''boom''] 0
     = [[''good'', '''']] @ [''boom''] # []"
    by (simp add: failing_analyzer_def batches_step batches_done batch_texts_at_def)
  have h3: "classifier failing_analyzer [''boom''] = Inl (External ''model error'')"
    by (simp add: failing_analyzer_def failing_classifier_def)
  have h4: "\<exists>rs. run_chunk (classifier failing_analyzer) [''good'', ''''] = Inr rs"
    by (simp add: failing_analyzer_def failing_classifier_def demo_classifier_def
        run_chunk_def classify_row_softmax_pair)
  then have h4': "\<forall>c'\<in>set [[''good'', '''']]. \<exists>rs. run_chunk (classifier failing_analyzer) c' = Inr rs"
    by simp
  from analyze_batch_propagates [OF h1 h2 h3] h4'
  have "analyze_batch failing_analyzer [''good'', '''', ''boom''] = Inl (External ''model error'')"
    by blast
  with h1 h2 h3 h4 show ?thesis by blast
qed

text \<open>
  C9. With a classifier that answers every chunk in one way only, two runs of
  \<^verbatim>\<open>analyze_batch\<close> on the same texts with the same batch size end in the same outcome:
  the same result list, item by item, or the same exception.
\<close>

theorem analyze_batch_repeatable:
  assumes "deterministic call"
    and "analyze_batch_run call batch_sz texts out1"
    and "analyze_batch_run call batch_sz texts out2"
  shows "out1 = out2"
proof (cases "batch_sz \<le> 0")
  case True
  with assms(2,3) show ?thesis
    by (auto simp: analyze_batch_run_def split: if_splits)
next
  case False
  with assms(2,3) have "batch_run call (nat batch_sz) texts 0 [] out1"
    "batch_run call (nat batch_sz) texts 0 [] out2"
    by (simp_all add: analyze_batch_run_def)
  then show ?thesis by (rule batch_run_deterministic [OF assms(1)])
qed

theorem analyze_batch_repeatable_witness:
  "deterministic (\<lambda>chunk out. demo_classifier chunk = out) \<and>
   analyze_batch_run (\<lambda>chunk out. demo_classifier chunk = out) 2 [''good'', '''', ''bad'']
     (Inr demo_results_list) \<and>
   \<not> analyze_batch_run (\<lambda>chunk out. demo_classifier chunk = out) 2 [''good'', '''', ''bad'']
     (Inr [])"
proof -
  let ?call = "\<lambda>chunk out. demo_classifier chunk = out"
  have h1: "deterministic ?call" by (rule deterministic_function)
  have h2: "analyze_batch_run ?call 2 [''good'', '''', ''bad''] (Inr demo_results_list)"
    using analyze_batch_run_analyze_batch [of demo_analyzer "[''good'', '''', ''bad'']"]
    by (simp add: demo_analyzer_results) (simp add: demo_analyzer_def)
  have h3: "\<not> analyze_batch_run ?call 2 [''good'', '''', ''bad''] (Inr [])"
  proof
    assume "analyze_batch_run ?call 2 [''good'', '''', ''bad''] (Inr [])"
    from analyze_batch_repeatable [OF h1 h2 this]
    show False by (simp add: demo_results_list_def)
  qed
  from h1 h2 h3 show ?thesis by (intro conjI)
qed

text \<open>
  C10. Every item of a result list of \<^verbatim>\<open>analyze_batch\<close> is labelled POSITIVE or NEGATIVE,
  so in the summary of that list the positive and the negative count add up to
  \<open>total_reviews\<close>, the length of the list.
\<close>

theorem labels_partition_results:
  assumes "analyze_batch self texts = Inr results"
  shows "(\<forall>r\<in>set results. label r = ''POSITIVE'' \<or> label r = ''NEGATIVE'') \<and>
         (\<exists>s. summarize results = Inr s \<and>
              positive_count s + negative_count s = total_reviews s \<and>
              total_reviews s = length results)"
proof -
  have a: "\<forall>r\<in>set results. label r = ''POSITIVE'' \<or> label r = ''NEGATIVE''"
    using analyze_batch_labels [OF assms] by blast
  from count_labels_total [OF a] show ?thesis
    using a by (simp add: summarize_Inr)
qed

theorem labels_partition_results_witness:
  "analyze_batch demo_analyzer [''good'', '''', ''bad''] = Inr demo_results_list \<and>
   (\<exists>s. summarize demo_results_list = Inr s \<and> positive_count s = 2 \<and> negative_count s = 1 \<and>
        total_reviews s = 3 \<and> positive_count s + negative_count s = total_reviews s)"
proof -
  from labels_partition_results [OF demo_analyzer_results]
  have "\<exists>s. summarize demo_results_list = Inr s \<and>
              positive_count s + negative_count s = total_reviews s \<and>
              total_reviews s = length demo_results_list" by (rule conjunct2)
  then obtain s where s1: "summarize demo_results_list = Inr s"
    and s2: "positive_count s + negative_count s = total_reviews s"
    and s3: "total_reviews s = length demo_results_list" by (elim exE conjE)
  have c: "positive_count s = 2" "negative_count s = 1"
    using summarize_fields(1,2) [OF s1] by (simp_all add: demo_counts)
  from s3 have t: "total_reviews s = 3" by (simp add: demo_results_list_def)
  have "summarize demo_results_list = Inr s \<and> positive_count s = 2 \<and> negative_count s = 1 \<and>
        total_reviews s = 3 \<and> positive_count s + negative_count s = total_reviews s"
    using s1 s2 c t by (intro conjI)
  then have "\<exists>s. summarize demo_results_list = Inr s \<and> positive_count s = 2 \<and> negative_count s = 1 \<and>
        total_reviews s = 3 \<and> positive_count s + negative_count s = total_reviews s" by (rule exI)
  with demo_analyzer_results show ?thesis by (rule conjI)
qed

end
